theory Spec2Isabelle
  imports Main
begin

section \<open>The frame queue\<close>

text \<open>
  \<^verbatim>\<open>FrameQueue\<close> holds a \<^verbatim>\<open>std::queue<cv::Mat>\<close>, the capacity \<^verbatim>\<open>max_size_\<close> and the
  atomic flag \<^verbatim>\<open>running_\<close>. The queue is a list whose head is the front. The capacity and
  the occupancy are \<^verbatim>\<open>size_t\<close>; they are natural numbers here, since the only arithmetic
  on them is the comparison \<^verbatim>\<open>queue_.size() >= max_size_\<close>. The mutex and the condition
  variable carry no data. \<^verbatim>\<open>push\<close>, \<^verbatim>\<open>pop\<close> and \<^verbatim>\<open>size\<close> hold the mutex for their
  whole body; \<^verbatim>\<open>stop\<close> and \<^verbatim>\<open>is_running\<close> do not take it. What the condition variable
  does to a waiting consumer is part of the pipeline model further down. A name cannot
  end in an underscore here, so the members \<^verbatim>\<open>queue_\<close>, \<^verbatim>\<open>max_size_\<close> and
  \<^verbatim>\<open>running_\<close> are written with the suffix \<open>m\<close>.
\<close>

record 'a FrameQueue =
  queue_m :: "'a list"
  max_size_m :: nat
  running_m :: bool

text \<open>
  \<^verbatim>\<open>std::queue::pop\<close> on an empty container is undefined behaviour; the model makes it
  an error value, so that a run which reaches it is visible.
\<close>

datatype error = Pop_On_Empty_Queue

text \<open>The constructor: \<^verbatim>\<open>FrameQueue(size_t max_size = 5) : max_size_(max_size), running_(true)\<close>.\<close>

definition FrameQueue_init :: "nat \<Rightarrow> 'a FrameQueue" where
  "FrameQueue_init max_size = \<lparr>queue_m = [], max_size_m = max_size, running_m = True\<rparr>"

text \<open>\<^verbatim>\<open>stop\<close>: \<^verbatim>\<open>running_ = false; cond_.notify_all();\<close>\<close>

definition stop :: "'a FrameQueue \<Rightarrow> 'a FrameQueue" where
  "stop q = q\<lparr>running_m := False\<rparr>"

text \<open>\<^verbatim>\<open>is_running\<close> and \<^verbatim>\<open>size\<close>; the latter is written \<open>size_q\<close>.\<close>

definition is_running :: "'a FrameQueue \<Rightarrow> bool" where
  "is_running q = running_m q"

definition size_q :: "'a FrameQueue \<Rightarrow> nat" where
  "size_q q = length (queue_m q)"

text \<open>
  \<^verbatim>\<open>stop\<close> takes no mutex, so its store to the atomic \<^verbatim>\<open>running_\<close> can land while a
  \<^verbatim>\<open>push\<close> of another thread is in flight, between two of the reads of \<^verbatim>\<open>running_\<close>
  that \<^verbatim>\<open>push\<close> makes. A call of \<^verbatim>\<open>push\<close> is therefore given, besides the channel, what
  a concurrent \<^verbatim>\<open>stop\<close> does during it: \<open>None\<close> when no store lands during the call, and
  \<open>Some n\<close> when the store lands after the call has read \<^verbatim>\<open>running_\<close> \<open>n\<close> times and
  before it reads it again. A read returns the value it finds, what is left of the
  countdown, and the channel as the store, if it has landed, leaves it.
\<close>

definition read_running :: "nat option \<Rightarrow> 'a FrameQueue \<Rightarrow> bool \<times> nat option \<times> 'a FrameQueue" where
  "read_running racing q =
     (case racing of
        None \<Rightarrow> (running_m q, None, q)
      | Some 0 \<Rightarrow> (False, None, stop q)
      | Some (Suc n) \<Rightarrow> (running_m q, Some n, q))"

text \<open>
  The loop of \<^verbatim>\<open>push\<close>:
  \<^verbatim>\<open>while (queue_.size() >= max_size_ && running_) { queue_.pop(); }\<close>
  The test reads \<^verbatim>\<open>running_\<close> only when the queue is full.
\<close>

function drop_oldest :: "nat option \<Rightarrow> 'a FrameQueue \<Rightarrow> error + nat option \<times> 'a FrameQueue" where
  "drop_oldest racing q =
     (if max_size_m q \<le> length (queue_m q)
      then (case read_running racing q of
              (r, racing', q') \<Rightarrow>
                if r
                then (case queue_m q' of
                        [] \<Rightarrow> Inl Pop_On_Empty_Queue
                      | x # xs \<Rightarrow> drop_oldest racing' (q'\<lparr>queue_m := xs\<rparr>))
                else Inr (racing', q'))
      else Inr (racing, q))"
  by pat_completeness auto
termination
  by (relation "measure (\<lambda>(racing, q). length (queue_m q))")
     (auto simp: read_running_def stop_def split: option.splits nat.splits)

declare drop_oldest.simps [simp del]

text \<open>
  \<^verbatim>\<open>push\<close>: the loop, then \<^verbatim>\<open>if (running_) { queue_.push(frame.clone()); cond_.notify_one(); }\<close>,
  which reads \<^verbatim>\<open>running_\<close> once more. The clone is a copy of the value. A store that has
  not landed by this last read is not part of the call: it is a \<^verbatim>\<open>stop\<close> after it.
\<close>

definition push :: "nat option \<Rightarrow> 'a FrameQueue \<Rightarrow> 'a \<Rightarrow> error + 'a FrameQueue" where
  "push racing q frame =
     (case drop_oldest racing q of
        Inl e \<Rightarrow> Inl e
      | Inr (racing', q') \<Rightarrow>
          (case read_running racing' q' of
             (r, racing'', q'') \<Rightarrow>
               Inr (if r then q''\<lparr>queue_m := queue_m q'' @ [frame]\<rparr> else q'')))"

text \<open>The predicate that \<^verbatim>\<open>pop\<close> waits for: \<^verbatim>\<open>!queue_.empty() || !running_\<close>.\<close>

definition wait_pred :: "'a FrameQueue \<Rightarrow> bool" where
  "wait_pred q \<longleftrightarrow> queue_m q \<noteq> [] \<or> \<not> running_m q"

text \<open>
  \<^verbatim>\<open>cond_.wait_for(lock, timeout, pred)\<close> is the library's loop
  \<^verbatim>\<open>while (!pred()) if (wait_until(lock, deadline) == timeout) return pred(); return true;\<close>
  When no other thread touches the channel during the call, the predicate keeps the value
  it has at entry: the call returns at once when it holds, and otherwise blocks until the
  deadline, which has already passed when the timeout is zero or negative. The result is
  the value returned and the number of milliseconds the caller stays blocked.
\<close>

definition wait_for :: "int \<Rightarrow> 'a FrameQueue \<Rightarrow> bool \<times> nat" where
  "wait_for timeout_ms q =
     (if wait_pred q then (True, 0) else (False, nat timeout_ms))"

text \<open>
  The rest of \<^verbatim>\<open>pop\<close>, run under the lock once \<^verbatim>\<open>wait_for\<close> has returned \<open>woke\<close>.
  The reference parameter \<^verbatim>\<open>frame\<close> is passed in and returned.
\<close>

definition pop_locked :: "bool \<Rightarrow> 'a FrameQueue \<Rightarrow> 'a \<Rightarrow> bool \<times> 'a \<times> 'a FrameQueue" where
  "pop_locked woke q frame =
     (if \<not> woke then (False, frame, q)
      else if \<not> running_m q \<and> queue_m q = [] then (False, frame, q)
      else (case queue_m q of
              x # xs \<Rightarrow> (True, x, q\<lparr>queue_m := xs\<rparr>)
            | [] \<Rightarrow> (False, frame, q)))"

record 'a pop_result =
  ok :: bool
  frame_out :: 'a
  queue_after :: "'a FrameQueue"
  blocked_ms :: nat

definition pop :: "'a FrameQueue \<Rightarrow> 'a \<Rightarrow> int \<Rightarrow> 'a pop_result" where
  "pop q frame timeout_ms =
     (case wait_for timeout_ms q of
        (woke, blocked) \<Rightarrow>
          (case pop_locked woke q frame of
             (r, frame', q') \<Rightarrow>
               \<lparr>ok = r, frame_out = frame', queue_after = q', blocked_ms = blocked\<rparr>))"

subsection \<open>Sequences of channel operations\<close>

text \<open>
  A sequence of operations is an execution of the channel in which no two calls overlap:
  no store of a \<^verbatim>\<open>stop\<close> lands during a \<^verbatim>\<open>push\<close> of the sequence. A consumer keeps
  the frame variable it passes to \<^verbatim>\<open>pop\<close>; the run records the result of every
  \<^verbatim>\<open>pop\<close>, the frames the successful ones returned, and the time spent blocked.
\<close>

datatype 'a op = Push 'a | Pop int | Stop

record 'a run =
  chan :: "'a FrameQueue"
  frame_var :: 'a
  delivered :: "'a list"
  oks :: "bool list"
  blocked :: nat

definition start :: "'a FrameQueue \<Rightarrow> 'a \<Rightarrow> 'a run" where
  "start q v = \<lparr>chan = q, frame_var = v, delivered = [], oks = [], blocked = 0\<rparr>"

fun exec_op :: "'a op \<Rightarrow> 'a run \<Rightarrow> error + 'a run" where
  "exec_op (Push f) s =
     (case push None (chan s) f of Inl e \<Rightarrow> Inl e | Inr q' \<Rightarrow> Inr (s\<lparr>chan := q'\<rparr>))"
| "exec_op (Pop timeout_ms) s =
     (let r = pop (chan s) (frame_var s) timeout_ms
      in Inr (s\<lparr>chan := queue_after r,
               frame_var := frame_out r,
               delivered := (if ok r then delivered s @ [frame_out r] else delivered s),
               oks := oks s @ [ok r],
               blocked := blocked s + blocked_ms r\<rparr>))"
| "exec_op Stop s = Inr (s\<lparr>chan := stop (chan s)\<rparr>)"

fun run_ops :: "'a op list \<Rightarrow> 'a run \<Rightarrow> error + 'a run" where
  "run_ops [] s = Inr s"
| "run_ops (x # xs) s =
     (case exec_op x s of Inl e \<Rightarrow> Inl e | Inr s' \<Rightarrow> run_ops xs s')"

text \<open>The frames a sequence of operations pushes, in order.\<close>

fun pushed :: "'a op list \<Rightarrow> 'a list" where
  "pushed [] = []"
| "pushed (Push f # xs) = f # pushed xs"
| "pushed (_ # xs) = pushed xs"

text \<open>No push of the sequence finds the channel full.\<close>

fun no_overflow :: "'a op list \<Rightarrow> 'a run \<Rightarrow> bool" where
  "no_overflow [] s = True"
| "no_overflow (x # xs) s =
     ((case x of Push f \<Rightarrow> size_q (chan s) < max_size_m (chan s) | _ \<Rightarrow> True) \<and>
      (case exec_op x s of Inl e \<Rightarrow> False | Inr s' \<Rightarrow> no_overflow xs s'))"


section \<open>The capture thread and the display loop\<close>

text \<open>
  A frame is a \<^verbatim>\<open>cv::Mat\<close>. The program copies frames, asks whether one is empty and
  hands them to \<^verbatim>\<open>cv::imshow\<close>; a frame is modelled by its pixel data, and it is empty
  when it has none. A default-constructed \<^verbatim>\<open>cv::Mat\<close> is empty.
\<close>

datatype 'p Mat = Mat (pixels: "'p list")

definition Mat_empty :: "'p Mat \<Rightarrow> bool" where
  "Mat_empty m \<longleftrightarrow> pixels m = []"

text \<open>
  The two threads of \<^verbatim>\<open>main\<close> share the queue and the atomic flag \<^verbatim>\<open>running\<close>. Each
  thread is a program counter over the places where it touches shared state, and a step
  is one atomic access or one critical section.

  The capture thread, \<^verbatim>\<open>captureThread\<close>:
  \<^item> \<open>Cap_Open\<close>: \<^verbatim>\<open>cv::VideoCapture cap(...); if (!cap.isOpened())\<close>;
  \<^item> \<open>Cap_Set_Flag\<close>: \<^verbatim>\<open>running = false;\<close> on the failure path;
  \<^item> \<open>Cap_Stop_Queue\<close>: \<^verbatim>\<open>frameQueue.stop();\<close> on the failure path;
  \<^item> \<open>Cap_Failed\<close>: the \<^verbatim>\<open>return\<close> of the failure path;
  \<^item> \<open>Cap_Loop\<close>: the test of \<^verbatim>\<open>while (running)\<close>;
  \<^item> \<open>Cap_Read\<close>: \<^verbatim>\<open>cap.read(frame)\<close> and the two checks after it;
  \<^item> \<open>Cap_Push\<close>: the call \<^verbatim>\<open>frameQueue.push(frame)\<close>, which takes the mutex;
  \<^item> \<open>Cap_Push_Test\<close>: the test of the loop of \<^verbatim>\<open>push\<close>;
  \<^item> \<open>Cap_Push_Drop\<close>: \<^verbatim>\<open>queue_.pop();\<close> in that loop;
  \<^item> \<open>Cap_Push_If\<close>: \<^verbatim>\<open>if (running_)\<close> after the loop; when it fails \<^verbatim>\<open>push\<close>
    returns and the frame is counted;
  \<^item> \<open>Cap_Push_Insert\<close>: \<^verbatim>\<open>queue_.push(frame.clone()); cond_.notify_one();\<close>, the
    return of \<^verbatim>\<open>push\<close> and the frame counter;
  \<^item> \<open>Cap_Returned\<close>: the end of the function, after \<^verbatim>\<open>cap.release()\<close>.
\<close>

datatype cap_pc =
  Cap_Open | Cap_Set_Flag | Cap_Stop_Queue | Cap_Failed
| Cap_Loop | Cap_Read
| Cap_Push | Cap_Push_Test | Cap_Push_Drop | Cap_Push_If | Cap_Push_Insert
| Cap_Returned

text \<open>
  The display loop of \<^verbatim>\<open>main\<close>:
  \<^item> \<open>Main_Loop\<close>: the test of \<^verbatim>\<open>while (running && frameQueue.is_running())\<close>;
  \<^item> \<open>Main_Pop\<close>: the entry of \<^verbatim>\<open>frameQueue.pop(frame, 1000)\<close>: the lock is taken and
    the predicate evaluated;
  \<^item> \<open>Main_Wait\<close>: the predicate was false; the lock is still held and the thread is
    about to block on the condition variable;
  \<^item> \<open>Main_Blocked\<close>: blocked on the condition variable, the lock released;
  \<^item> \<open>Main_Notified\<close>: woken by \<^verbatim>\<open>notify_one\<close> or \<^verbatim>\<open>notify_all\<close>, not yet run;
  \<^item> \<open>Main_Pop_Failed\<close>: \<^verbatim>\<open>pop\<close> returned false: \<^verbatim>\<open>if (!running) break; continue;\<close>;
  \<^item> \<open>Main_Show\<close>: \<^verbatim>\<open>pop\<close> returned true: the rest of the loop body;
  \<^item> \<open>Main_Stop\<close>: after the loop: \<^verbatim>\<open>frameQueue.stop();\<close>;
  \<^item> \<open>Main_Join\<close>: \<^verbatim>\<open>capture_thread.join();\<close>;
  \<^item> \<open>Main_Returned\<close>: \<^verbatim>\<open>return 0;\<close>.
\<close>

datatype main_pc =
  Main_Loop | Main_Pop | Main_Wait | Main_Blocked | Main_Notified
| Main_Pop_Failed | Main_Show | Main_Stop | Main_Join | Main_Returned

record 'p pipeline =
  frameQueue :: "'p Mat FrameQueue"
  running :: bool
  capture_fps :: int
  display_fps :: int
  cap_pc :: cap_pc
  cap_frame :: "'p Mat"
  cap_frame_count :: int
  main_pc :: main_pc
  main_frame :: "'p Mat"
  main_frame_count :: int
  shown :: "'p Mat list"

text \<open>
  What the outside world decides in a step of the capture thread: whether the camera
  opened, what \<^verbatim>\<open>cap.read\<close> returned and left in the frame, and the milliseconds since
  the frame rate was last published.
\<close>

record 'p capture_input =
  isOpened :: bool
  read_ok :: bool
  read_frame :: "'p Mat"
  cap_elapsed :: int

text \<open>
  And in a step of the display loop: whether the deadline of a blocked \<^verbatim>\<open>pop\<close> has
  passed, the milliseconds since the frame rate was last published, and the key that
  \<^verbatim>\<open>cv::waitKey(1)\<close> returned.
\<close>

record display_input =
  timed_out :: bool
  disp_elapsed :: int
  key :: int

text \<open>
  \<^verbatim>\<open>notify_one\<close> and \<^verbatim>\<open>notify_all\<close> wake the consumer when it is blocked on the
  condition variable and do nothing otherwise; the display loop is the only consumer.
\<close>

definition notify :: "main_pc \<Rightarrow> main_pc" where
  "notify pc = (if pc = Main_Blocked then Main_Notified else pc)"

text \<open>
  The capture thread holds the mutex from the entry of \<^verbatim>\<open>push\<close> to its return. The
  display loop holds it between evaluating the predicate of \<^verbatim>\<open>pop\<close> and blocking; every
  other use of the mutex by the display loop begins and ends within one step.
\<close>

definition cap_holds_mutex :: "cap_pc \<Rightarrow> bool" where
  "cap_holds_mutex pc \<longleftrightarrow>
     pc = Cap_Push_Test \<or> pc = Cap_Push_Drop \<or> pc = Cap_Push_If \<or> pc = Cap_Push_Insert"

definition main_holds_mutex :: "main_pc \<Rightarrow> bool" where
  "main_holds_mutex pc \<longleftrightarrow> pc = Main_Wait"

text \<open>
  After \<^verbatim>\<open>push\<close> has returned: \<^verbatim>\<open>frame_count++\<close>, and
  \<^verbatim>\<open>if (elapsed >= 1000) { capture_fps = frame_count; frame_count = 0; ... }\<close>.
\<close>

definition count_frame :: "'p capture_input \<Rightarrow> 'p pipeline \<Rightarrow> 'p pipeline" where
  "count_frame i s =
     s\<lparr>capture_fps := (if 1000 \<le> cap_elapsed i then cap_frame_count s + 1 else capture_fps s),
       cap_frame_count := (if 1000 \<le> cap_elapsed i then 0 else cap_frame_count s + 1)\<rparr>"

text \<open>
  A step of \<^verbatim>\<open>captureThread\<close>. The call of \<^verbatim>\<open>push\<close> waits while the display loop holds
  the mutex. Inside \<^verbatim>\<open>push\<close> every test of the loop, every \<^verbatim>\<open>queue_.pop()\<close>, the read of
  \<^verbatim>\<open>running_\<close> after the loop and the insertion are steps of their own, so that the
  display loop's \<^verbatim>\<open>stop\<close>, which takes no mutex, can land between any two of them.
\<close>

definition captureThread_step :: "'p capture_input \<Rightarrow> 'p pipeline \<Rightarrow> error + 'p pipeline" where
  "captureThread_step i s =
     (case cap_pc s of
        Cap_Open \<Rightarrow>
          Inr (if \<not> isOpened i then s\<lparr>cap_pc := Cap_Set_Flag\<rparr>
               else s\<lparr>cap_frame_count := 0, cap_pc := Cap_Loop\<rparr>)
      | Cap_Set_Flag \<Rightarrow> Inr (s\<lparr>running := False, cap_pc := Cap_Stop_Queue\<rparr>)
      | Cap_Stop_Queue \<Rightarrow>
          Inr (s\<lparr>frameQueue := stop (frameQueue s),
                 main_pc := notify (main_pc s),
                 cap_pc := Cap_Failed\<rparr>)
      | Cap_Failed \<Rightarrow> Inr s
      | Cap_Loop \<Rightarrow>
          Inr (if running s then s\<lparr>cap_pc := Cap_Read\<rparr> else s\<lparr>cap_pc := Cap_Returned\<rparr>)
      | Cap_Read \<Rightarrow>
          Inr (if \<not> read_ok i then s\<lparr>cap_frame := read_frame i, cap_pc := Cap_Loop\<rparr>
               else if Mat_empty (read_frame i)
               then s\<lparr>cap_frame := read_frame i, cap_pc := Cap_Loop\<rparr>
               else s\<lparr>cap_frame := read_frame i, cap_pc := Cap_Push\<rparr>)
      | Cap_Push \<Rightarrow>
          Inr (if main_holds_mutex (main_pc s) then s else s\<lparr>cap_pc := Cap_Push_Test\<rparr>)
      | Cap_Push_Test \<Rightarrow>
          Inr (if max_size_m (frameQueue s) \<le> length (queue_m (frameQueue s)) \<and>
                  running_m (frameQueue s)
               then s\<lparr>cap_pc := Cap_Push_Drop\<rparr>
               else s\<lparr>cap_pc := Cap_Push_If\<rparr>)
      | Cap_Push_Drop \<Rightarrow>
          (case queue_m (frameQueue s) of
             [] \<Rightarrow> Inl Pop_On_Empty_Queue
           | x # xs \<Rightarrow>
               Inr (s\<lparr>frameQueue := (frameQueue s)\<lparr>queue_m := xs\<rparr>,
                      cap_pc := Cap_Push_Test\<rparr>))
      | Cap_Push_If \<Rightarrow>
          Inr (if running_m (frameQueue s) then s\<lparr>cap_pc := Cap_Push_Insert\<rparr>
               else (count_frame i s)\<lparr>cap_pc := Cap_Loop\<rparr>)
      | Cap_Push_Insert \<Rightarrow>
          Inr ((count_frame i s)
                 \<lparr>frameQueue :=
                    (frameQueue s)\<lparr>queue_m := queue_m (frameQueue s) @ [cap_frame s]\<rparr>,
                  main_pc := notify (main_pc s),
                  cap_pc := Cap_Loop\<rparr>)
      | Cap_Returned \<Rightarrow> Inr s)"

text \<open>
  The end of a \<^verbatim>\<open>pop\<close> of the display loop: \<^verbatim>\<open>wait_for\<close> has returned \<open>woke\<close>, the
  lock is held, and the loop goes on according to the result.
\<close>

definition main_pop_return :: "bool \<Rightarrow> 'p pipeline \<Rightarrow> 'p pipeline" where
  "main_pop_return woke s =
     (case pop_locked woke (frameQueue s) (main_frame s) of
        (r, frame', q') \<Rightarrow>
          s\<lparr>frameQueue := q', main_frame := frame',
            main_pc := (if r then Main_Show else Main_Pop_Failed)\<rparr>)"

text \<open>The keys that end the display loop: \<^verbatim>\<open>key == 'q' || key == 'Q' || key == 27\<close>.\<close>

definition exit_key :: "int \<Rightarrow> bool" where
  "exit_key k \<longleftrightarrow> k = 113 \<or> k = 81 \<or> k = 27"

text \<open>
  A step of the display loop and of the shutdown after it. A blocked consumer runs again
  when it is notified or when its deadline has passed; \<^verbatim>\<open>join\<close> waits until the capture
  thread has returned. The \<^verbatim>\<open>notify_all\<close> of the \<^verbatim>\<open>stop\<close> after the loop finds no
  waiter, since the only consumer is the caller. Entering \<^verbatim>\<open>pop\<close> and returning from
  the wait take the mutex, so these steps wait while the capture thread is inside
  \<^verbatim>\<open>push\<close>. The rest of the loop body is one step: \<^verbatim>\<open>frameQueue.size()\<close> takes the
  mutex only to read the occupancy for the printed line, and the step does not wait for
  it, which adds executions to the model and removes none.
\<close>

definition main_step :: "display_input \<Rightarrow> 'p pipeline \<Rightarrow> error + 'p pipeline" where
  "main_step d s =
     (case main_pc s of
        Main_Loop \<Rightarrow>
          Inr (if running s \<and> is_running (frameQueue s) then s\<lparr>main_pc := Main_Pop\<rparr>
               else s\<lparr>main_pc := Main_Stop\<rparr>)
      | Main_Pop \<Rightarrow>
          Inr (if cap_holds_mutex (cap_pc s) then s
               else if wait_pred (frameQueue s) then main_pop_return True s
               else s\<lparr>main_pc := Main_Wait\<rparr>)
      | Main_Wait \<Rightarrow> Inr (s\<lparr>main_pc := Main_Blocked\<rparr>)
      | Main_Blocked \<Rightarrow>
          Inr (if timed_out d \<and> \<not> cap_holds_mutex (cap_pc s)
               then main_pop_return (wait_pred (frameQueue s)) s else s)
      | Main_Notified \<Rightarrow>
          Inr (if cap_holds_mutex (cap_pc s) then s
               else if wait_pred (frameQueue s) then main_pop_return True s
               else s\<lparr>main_pc := Main_Wait\<rparr>)
      | Main_Pop_Failed \<Rightarrow>
          Inr (if \<not> running s then s\<lparr>main_pc := Main_Stop\<rparr> else s\<lparr>main_pc := Main_Loop\<rparr>)
      | Main_Show \<Rightarrow>
          Inr (if Mat_empty (main_frame s) then s\<lparr>main_pc := Main_Loop\<rparr>
               else
                 (let s1 = s\<lparr>shown := shown s @ [main_frame s],
                             display_fps :=
                               (if 1000 \<le> disp_elapsed d then main_frame_count s + 1
                                else display_fps s),
                             main_frame_count :=
                               (if 1000 \<le> disp_elapsed d then 0 else main_frame_count s + 1)\<rparr>
                  in if exit_key (key d) then s1\<lparr>running := False, main_pc := Main_Stop\<rparr>
                     else s1\<lparr>main_pc := Main_Loop\<rparr>))
      | Main_Stop \<Rightarrow>
          Inr (s\<lparr>frameQueue := stop (frameQueue s),
                 main_pc := Main_Join\<rparr>)
      | Main_Join \<Rightarrow>
          Inr (if cap_pc s = Cap_Failed \<or> cap_pc s = Cap_Returned
               then s\<lparr>main_pc := Main_Returned\<rparr> else s)
      | Main_Returned \<Rightarrow> Inr s)"

text \<open>
  The state in which \<^verbatim>\<open>main\<close> has built the queue with \<^verbatim>\<open>queue_size\<close>, set
  \<^verbatim>\<open>running(true)\<close> and both frame rates to zero, started the capture thread and reached
  its loop.
\<close>

definition main_init :: "nat \<Rightarrow> 'p pipeline" where
  "main_init queue_size =
     \<lparr>frameQueue = FrameQueue_init queue_size, running = True,
      capture_fps = 0, display_fps = 0,
      cap_pc = Cap_Open, cap_frame = Mat [], cap_frame_count = 0,
      main_pc = Main_Loop, main_frame = Mat [], main_frame_count = 0,
      shown = []\<rparr>"

text \<open>An execution of the pipeline is a sequence of steps of the two threads.\<close>

datatype 'p event = Capture "'p capture_input" | Display display_input

fun step :: "'p event \<Rightarrow> 'p pipeline \<Rightarrow> error + 'p pipeline" where
  "step (Capture i) s = captureThread_step i s"
| "step (Display d) s = main_step d s"

fun exec :: "'p event list \<Rightarrow> 'p pipeline \<Rightarrow> error + 'p pipeline" where
  "exec [] s = Inr s"
| "exec (e # es) s = (case step e s of Inl err \<Rightarrow> Inl err | Inr s' \<Rightarrow> exec es s')"

text \<open>
  The values of \<^verbatim>\<open>running\<close> along an execution, the starting state included, and the
  number of places where a sequence of values goes from true to false or from false to
  true.
\<close>

fun flag_trace :: "'p event list \<Rightarrow> 'p pipeline \<Rightarrow> bool list" where
  "flag_trace [] s = [running s]"
| "flag_trace (e # es) s =
     running s # (case step e s of Inl err \<Rightarrow> [] | Inr s' \<Rightarrow> flag_trace es s')"

fun falls :: "bool list \<Rightarrow> nat" where
  "falls (a # b # xs) = (if a \<and> \<not> b then 1 else 0) + falls (b # xs)"
| "falls xs = 0"

fun rises :: "bool list \<Rightarrow> nat" where
  "rises (a # b # xs) = (if \<not> a \<and> b then 1 else 0) + rises (b # xs)"
| "rises xs = 0"

text \<open>
  Inputs of the concrete executions below: the camera is open and \<^verbatim>\<open>cap.read\<close> delivers a
  frame holding the one pixel \<open>k\<close>; no deadline passes and \<^verbatim>\<open>cv::waitKey\<close> returns \<open>k\<close>.
\<close>

abbreviation camera :: "nat \<Rightarrow> nat capture_input" where
  "camera k \<equiv> \<lparr>isOpened = True, read_ok = True, read_frame = Mat [k], cap_elapsed = 0\<rparr>"

abbreviation keyboard :: "int \<Rightarrow> display_input" where
  "keyboard k \<equiv> \<lparr>timed_out = False, disp_elapsed = 0, key = k\<rparr>"

section \<open>Properties of the queue operations\<close>

text \<open>What a read of \<^verbatim>\<open>running_\<close> and the loop of \<^verbatim>\<open>push\<close> return, by the state of the channel.\<close>

lemma stop_closed: "\<not> running_m q \<Longrightarrow> stop q = q"
  by (cases q) (simp add: stop_def)

lemma read_running_None [simp]: "read_running None q = (running_m q, None, q)"
  by (simp add: read_running_def)

lemma read_running_result:
  assumes "read_running racing q = (r, racing', q')"
  shows "r = running_m q'" and "queue_m q' = queue_m q" and "max_size_m q' = max_size_m q"
    and "running_m q' \<Longrightarrow> running_m q" and "\<not> running_m q \<Longrightarrow> q' = q"
    and "q' = q \<or> q' = stop q"
  using assms
  by (auto simp: read_running_def stop_def stop_closed split: option.splits nat.splits)

lemma read_running_closed:
  "\<not> running_m q \<Longrightarrow> \<exists>racing'. read_running racing q = (False, racing', q)"
  by (auto simp: read_running_def stop_closed split: option.splits nat.splits)

lemma drop_oldest_room: "length (queue_m q) < max_size_m q \<Longrightarrow> drop_oldest racing q = Inr (racing, q)"
  by (simp add: drop_oldest.simps)

lemma drop_oldest_closed:
  "\<not> running_m q \<Longrightarrow> \<exists>racing'. drop_oldest racing q = Inr (racing', q)"
  using read_running_closed[of q racing]
  by (auto simp: drop_oldest.simps)

lemma drop_oldest_None_closed: "\<not> running_m q \<Longrightarrow> drop_oldest None q = Inr (None, q)"
  by (simp add: drop_oldest.simps)

lemma drop_oldest_None_open:
  "running_m q \<Longrightarrow> 1 \<le> max_size_m q \<Longrightarrow>
   drop_oldest None q =
     Inr (None, q\<lparr>queue_m := drop (length (queue_m q) + 1 - max_size_m q) (queue_m q)\<rparr>)"
proof (induction "queue_m q" arbitrary: q)
  case Nil
  then show ?case by (simp add: drop_oldest.simps)
next
  case (Cons x xs)
  show ?case
  proof (cases "max_size_m q \<le> length (queue_m q)")
    case False
    then show ?thesis by (simp add: drop_oldest.simps)
  next
    case True
    have xs: "queue_m q = x # xs" using Cons.hyps(2) by simp
    have "drop_oldest None q = drop_oldest None (q\<lparr>queue_m := xs\<rparr>)"
      using True Cons.prems xs by (subst drop_oldest.simps) simp
    also have "\<dots> = Inr (None, q\<lparr>queue_m := drop (length xs + 1 - max_size_m q) xs\<rparr>)"
      using Cons.hyps(1)[of "q\<lparr>queue_m := xs\<rparr>"] Cons.prems by simp
    also have "drop (length xs + 1 - max_size_m q) xs =
        drop (length (queue_m q) + 1 - max_size_m q) (queue_m q)"
      using True xs by (simp add: Suc_diff_le)
    finally show ?thesis .
  qed
qed

lemma drop_oldest_None_zero_capacity:
  "running_m q \<Longrightarrow> max_size_m q = 0 \<Longrightarrow> drop_oldest None q = Inl Pop_On_Empty_Queue"
proof (induction "queue_m q" arbitrary: q)
  case Nil
  then show ?case by (simp add: drop_oldest.simps)
next
  case (Cons x xs)
  have xs: "queue_m q = x # xs" using Cons.hyps(2) by simp
  have "drop_oldest None q = drop_oldest None (q\<lparr>queue_m := xs\<rparr>)"
    using Cons.prems xs by (subst drop_oldest.simps) simp
  also have "\<dots> = Inl Pop_On_Empty_Queue"
    using Cons.hyps(1)[of "q\<lparr>queue_m := xs\<rparr>"] Cons.prems by simp
  finally show ?case .
qed

lemma drop_oldest_result:
  "1 \<le> max_size_m q \<Longrightarrow>
   \<exists>k racing' q'.
     drop_oldest racing q = Inr (racing', q') \<and>
     k \<le> length (queue_m q) + 1 - max_size_m q \<and>
     queue_m q' = drop k (queue_m q) \<and>
     max_size_m q' = max_size_m q \<and>
     (running_m q' \<longrightarrow> running_m q) \<and>
     (length (queue_m q') < max_size_m q' \<or> \<not> running_m q') \<and>
     (q' = q\<lparr>queue_m := drop k (queue_m q)\<rparr> \<or> q' = stop (q\<lparr>queue_m := drop k (queue_m q)\<rparr>))"
proof (induction "queue_m q" arbitrary: racing q)
  case Nil
  then have "drop_oldest racing q = Inr (racing, q)"
    by (simp add: drop_oldest_room)
  with Nil show ?case by (intro exI[of _ 0]) auto
next
  case (Cons x xs)
  have xs: "queue_m q = x # xs" using Cons.hyps(2) by simp
  show ?case
  proof (cases "max_size_m q \<le> length (queue_m q)")
    case False
    then have "drop_oldest racing q = Inr (racing, q)"
      by (simp add: drop_oldest_room)
    with False show ?thesis by (intro exI[of _ 0]) auto
  next
    case True
    obtain r racing1 q1 where rd: "read_running racing q = (r, racing1, q1)"
      by (cases "read_running racing q") auto
    note rr = read_running_result[OF rd]
    show ?thesis
    proof (cases r)
      case False
      have "drop_oldest racing q = Inr (racing1, q1)"
        using True rd False by (subst drop_oldest.simps) simp
      moreover have "\<not> running_m q1" using rr(1) False by simp
      moreover have "q1 = q\<lparr>queue_m := drop 0 (queue_m q)\<rparr> \<or>
          q1 = stop (q\<lparr>queue_m := drop 0 (queue_m q)\<rparr>)"
        using rr(6) by simp
      ultimately show ?thesis using rr(2,3)
        by (intro exI[of _ 0] exI[of _ racing1] exI[of _ q1]) simp
    next
      case r: True
      let ?q2 = "q1\<lparr>queue_m := xs\<rparr>"
      have unfold: "drop_oldest racing q = drop_oldest racing1 ?q2"
        using True rd r rr(2) xs by (subst drop_oldest.simps) simp
      have "xs = queue_m ?q2" by simp
      moreover have "1 \<le> max_size_m ?q2" using Cons.prems rr(3) by simp
      ultimately obtain k racing' q' where ih:
        "drop_oldest racing1 ?q2 = Inr (racing', q')"
        "k \<le> length (queue_m ?q2) + 1 - max_size_m ?q2"
        "queue_m q' = drop k (queue_m ?q2)"
        "max_size_m q' = max_size_m ?q2"
        "running_m q' \<longrightarrow> running_m ?q2"
        "length (queue_m q') < max_size_m q' \<or> \<not> running_m q'"
        "q' = ?q2\<lparr>queue_m := drop k (queue_m ?q2)\<rparr> \<or>
         q' = stop (?q2\<lparr>queue_m := drop k (queue_m ?q2)\<rparr>)"
        using Cons.hyps(1)[of ?q2 racing1] by blast
      have q1: "q1 = q" using rr(1,6) r by (auto simp: stop_def)
      have "Suc k \<le> length (queue_m q) + 1 - max_size_m q"
        using ih(2) True xs rr(3) by simp
      moreover have "queue_m q' = drop (Suc k) (queue_m q)"
        using ih(3) xs by simp
      moreover have "max_size_m q' = max_size_m q" using ih(4) rr(3) by simp
      moreover have "running_m q' \<longrightarrow> running_m q" using ih(5) rr(4) by simp
      moreover have "q' = q\<lparr>queue_m := drop (Suc k) (queue_m q)\<rparr> \<or>
          q' = stop (q\<lparr>queue_m := drop (Suc k) (queue_m q)\<rparr>)"
        using ih(7) q1 xs by simp
      ultimately show ?thesis using unfold ih(1,6)
        by (intro exI[of _ "Suc k"] exI[of _ racing'] exI[of _ q']) simp
    qed
  qed
qed

lemma push_closed: "\<not> running_m q \<Longrightarrow> push racing q f = Inr q"
proof -
  assume c: "\<not> running_m q"
  from drop_oldest_closed[OF c, of racing] obtain racing' where
    d: "drop_oldest racing q = Inr (racing', q)" by blast
  from read_running_closed[OF c, of racing'] obtain racing'' where
    "read_running racing' q = (False, racing'', q)" by blast
  with d show ?thesis by (simp add: push_def)
qed

lemma push_room:
  "running_m q \<Longrightarrow> length (queue_m q) < max_size_m q \<Longrightarrow>
   push None q f = Inr (q\<lparr>queue_m := queue_m q @ [f]\<rparr>)"
  by (simp add: push_def drop_oldest_room)

lemma push_open:
  "running_m q \<Longrightarrow> 1 \<le> max_size_m q \<Longrightarrow>
   push None q f =
     Inr (q\<lparr>queue_m := drop (length (queue_m q) + 1 - max_size_m q) (queue_m q) @ [f]\<rparr>)"
  by (simp add: push_def drop_oldest_None_open)

lemma push_zero_capacity:
  "running_m q \<Longrightarrow> max_size_m q = 0 \<Longrightarrow> push None q f = Inl Pop_On_Empty_Queue"
  by (simp add: push_def drop_oldest_None_zero_capacity)

lemma push_bounded:
  assumes "1 \<le> max_size_m q"
  shows "\<exists>q'. push racing q f = Inr q' \<and>
            length (queue_m q') \<le> max (length (queue_m q)) (max_size_m q) \<and>
            max_size_m q' = max_size_m q \<and> (running_m q' \<longrightarrow> running_m q)"
proof -
  from drop_oldest_result[OF assms, of racing] obtain k racing1 q1 where d:
    "drop_oldest racing q = Inr (racing1, q1)"
    "queue_m q1 = drop k (queue_m q)"
    "max_size_m q1 = max_size_m q"
    "running_m q1 \<longrightarrow> running_m q"
    "length (queue_m q1) < max_size_m q1 \<or> \<not> running_m q1"
    by blast
  obtain r racing2 q2 where rd: "read_running racing1 q1 = (r, racing2, q2)"
    by (cases "read_running racing1 q1") auto
  note rr = read_running_result[OF rd]
  have p: "push racing q f = Inr (if r then q2\<lparr>queue_m := queue_m q2 @ [f]\<rparr> else q2)"
    using d(1) rd by (simp add: push_def)
  show ?thesis
  proof (cases r)
    case True
    then have "running_m q1" using rr(1,4) by simp
    with d(5) have "length (queue_m q1) < max_size_m q1" by simp
    with p True rr d(2,3,4) show ?thesis by auto
  next
    case False
    with p rr d(2,3,4) show ?thesis by auto
  qed
qed

lemma pop_cases:
  "pop q v t =
     (case queue_m q of
        [] \<Rightarrow> \<lparr>ok = False, frame_out = v, queue_after = q,
               blocked_ms = (if running_m q then nat t else 0)\<rparr>
      | x # xs \<Rightarrow> \<lparr>ok = True, frame_out = x, queue_after = q\<lparr>queue_m := xs\<rparr>,
                  blocked_ms = 0\<rparr>)"
  by (simp add: pop_def wait_for_def wait_pred_def pop_locked_def split: list.splits)

lemma pop_locked_cases:
  "pop_locked w q v =
     (if w \<and> queue_m q \<noteq> [] then (True, hd (queue_m q), q\<lparr>queue_m := tl (queue_m q)\<rparr>)
      else (False, v, q))"
  by (simp add: pop_locked_def split: list.splits)

text \<open>
  A \<^verbatim>\<open>push\<close> on a full open channel during which no store of a \<^verbatim>\<open>stop\<close> lands removes
  frames from the front until one place is free and appends its frame.
\<close>

lemma push_full_not_overlapped:
  "running_m q \<Longrightarrow> 1 \<le> max_size_m q \<Longrightarrow> max_size_m q \<le> size_q q \<Longrightarrow>
   push None q f = Inr (q\<lparr>queue_m := drop (size_q q + 1 - max_size_m q) (queue_m q) @ [f]\<rparr>)"
  by (simp add: push_open size_q_def)

subsection \<open>Sequences of operations\<close>

lemma exec_op_inv:
  assumes "1 \<le> max_size_m (chan s)" "size_q (chan s) \<le> max_size_m (chan s)"
  shows "\<exists>s'. exec_op x s = Inr s' \<and> size_q (chan s') \<le> max_size_m (chan s') \<and>
              max_size_m (chan s') = max_size_m (chan s)"
proof (cases x)
  case (Push f)
  from push_bounded[OF assms(1), of None f] obtain q' where
    q': "push None (chan s) f = Inr q'"
        "length (queue_m q') \<le> max (length (queue_m (chan s))) (max_size_m (chan s))"
        "max_size_m q' = max_size_m (chan s)"
    by blast
  with assms Push show ?thesis by (simp add: size_q_def)
next
  case (Pop t)
  with assms show ?thesis
    by (auto simp: pop_cases size_q_def Let_def split: list.splits)
next
  case Stop
  with assms show ?thesis by (simp add: stop_def size_q_def)
qed

lemma run_ops_inv:
  "1 \<le> max_size_m (chan s) \<Longrightarrow> size_q (chan s) \<le> max_size_m (chan s) \<Longrightarrow>
   \<exists>s'. run_ops ops s = Inr s' \<and> size_q (chan s') \<le> max_size_m (chan s') \<and>
        max_size_m (chan s') = max_size_m (chan s)"
proof (induction ops arbitrary: s)
  case Nil
  then show ?case by simp
next
  case (Cons x xs)
  from exec_op_inv[OF Cons.prems, of x] obtain s1 where
    s1: "exec_op x s = Inr s1" "size_q (chan s1) \<le> max_size_m (chan s1)"
        "max_size_m (chan s1) = max_size_m (chan s)"
    by blast
  with Cons.prems have "1 \<le> max_size_m (chan s1)" by simp
  from Cons.IH[OF this s1(2)] s1 show ?case by auto
qed

lemma exec_op_fifo:
  assumes "running_m (chan s)" "x \<noteq> Stop"
    and "case x of Push f \<Rightarrow> size_q (chan s) < max_size_m (chan s) | _ \<Rightarrow> True"
  shows "\<exists>s'. exec_op x s = Inr s' \<and> running_m (chan s') \<and>
           delivered s' @ queue_m (chan s') = delivered s @ queue_m (chan s) @ pushed [x]"
proof (cases x)
  case (Push f)
  with assms show ?thesis by (simp add: push_room size_q_def)
next
  case (Pop t)
  with assms show ?thesis by (simp add: pop_cases Let_def split: list.splits)
next
  case Stop
  with assms show ?thesis by simp
qed

lemma pushed_Cons: "pushed (x # xs) = pushed [x] @ pushed xs"
  by (cases x) simp_all

lemma drain:
  "queue_m (chan s) = xs \<Longrightarrow> length ts = length xs \<Longrightarrow>
   \<exists>s'. run_ops (map Pop ts) s = Inr s' \<and>
        delivered s' = delivered s @ xs \<and>
        oks s' = oks s @ replicate (length xs) True \<and>
        blocked s' = blocked s \<and>
        chan s' = (chan s)\<lparr>queue_m := []\<rparr>"
proof (induction xs arbitrary: ts s)
  case Nil
  then show ?case by simp
next
  case (Cons x xs)
  from Cons.prems(2) obtain t ts' where ts: "ts = t # ts'" "length ts' = length xs"
    by (cases ts) auto
  let ?s1 = "s\<lparr>chan := (chan s)\<lparr>queue_m := xs\<rparr>, frame_var := x,
                delivered := delivered s @ [x], oks := oks s @ [True]\<rparr>"
  have step: "exec_op (Pop t) s = Inr ?s1"
    using Cons.prems(1) by (simp add: pop_cases Let_def)
  have "queue_m (chan ?s1) = xs" by simp
  from Cons.IH[OF this ts(2)] obtain s' where
    s': "run_ops (map Pop ts') ?s1 = Inr s'"
        "delivered s' = delivered ?s1 @ xs"
        "oks s' = oks ?s1 @ replicate (length xs) True"
        "blocked s' = blocked ?s1"
        "chan s' = (chan ?s1)\<lparr>queue_m := []\<rparr>"
    by blast
  have "run_ops (map Pop ts) s = Inr s'"
    using step s'(1) ts(1) by simp
  moreover have "delivered s' = delivered s @ x # xs"
    using s'(2) by simp
  moreover have "oks s' = oks s @ replicate (length (x # xs)) True"
    using s'(3) by simp
  moreover have "blocked s' = blocked s"
    using s'(4) by simp
  moreover have "chan s' = (chan s)\<lparr>queue_m := []\<rparr>"
    using s'(5) by simp
  ultimately show ?case by blast
qed

lemma closed_empty_pops:
  "queue_m (chan s) = [] \<Longrightarrow> \<not> running_m (chan s) \<Longrightarrow>
   run_ops (map Pop ts) s = Inr (s\<lparr>oks := oks s @ replicate (length ts) False\<rparr>)"
proof (induction ts arbitrary: s)
  case Nil
  then show ?case by simp
next
  case (Cons t ts)
  let ?s1 = "s\<lparr>oks := oks s @ [False]\<rparr>"
  have step: "exec_op (Pop t) s = Inr ?s1"
    using Cons.prems by (simp add: pop_cases Let_def)
  have "run_ops (map Pop ts) ?s1 = Inr (?s1\<lparr>oks := oks ?s1 @ replicate (length ts) False\<rparr>)"
    using Cons.prems by (intro Cons.IH) simp_all
  with step show ?case by (simp add: replicate_app_Cons_same)
qed

text \<open>
  In a sequence of operations, where no call overlaps another: three frames pushed into a
  new channel of capacity two come out as the second and the third; and after a
  \<^verbatim>\<open>stop\<close> the pops return the buffered frames in order without blocking, and then fail
  without blocking.
\<close>

lemma overflow_order_not_overlapped:
  "\<exists>s. run_ops [Push a, Push b, Push c, Pop t1, Pop t2] (start (FrameQueue_init 2) v) = Inr s \<and>
       delivered s = [b, c] \<and> oks s = [True, True]"
  by (simp add: push_open start_def FrameQueue_init_def pop_cases Let_def)

lemma pops_after_stop_not_overlapped:
  "length ts = size_q q \<Longrightarrow>
   queue_m (stop q) = queue_m q \<and>
   (\<exists>s. run_ops (map Pop ts) (start (stop q) v) = Inr s \<and>
        delivered s = queue_m q \<and>
        oks s = replicate (size_q q) True \<and>
        blocked s = 0 \<and>
        queue_m (chan s) = [] \<and>
        ok (pop (chan s) w t) = False \<and>
        blocked_ms (pop (chan s) w t) = 0 \<and>
        run_ops (map Pop ts') s = Inr (s\<lparr>oks := oks s @ replicate (length ts') False\<rparr>))"
proof
  show "queue_m (stop q) = queue_m q" by (simp add: stop_def)
next
  assume len: "length ts = size_q q"
  let ?s0 = "start (stop q) v"
  have "queue_m (chan ?s0) = queue_m q" by (simp add: start_def stop_def)
  from drain[OF this] len obtain s where
    s: "run_ops (map Pop ts) ?s0 = Inr s"
       "delivered s = delivered ?s0 @ queue_m q"
       "oks s = oks ?s0 @ replicate (length (queue_m q)) True"
       "blocked s = blocked ?s0"
       "chan s = (chan ?s0)\<lparr>queue_m := []\<rparr>"
    by (auto simp: size_q_def)
  have closed: "queue_m (chan s) = []" "\<not> running_m (chan s)"
    using s(5) by (simp_all add: start_def stop_def)
  have "delivered s = queue_m q" "oks s = replicate (size_q q) True" "blocked s = 0"
    using s(2,3,4) by (simp_all add: start_def size_q_def)
  moreover have "ok (pop (chan s) w t) = False" "blocked_ms (pop (chan s) w t) = 0"
    using closed by (simp_all add: pop_cases)
  moreover note closed_empty_pops[OF closed, of ts'] s(1) closed(1)
  ultimately show "\<exists>s. run_ops (map Pop ts) ?s0 = Inr s \<and>
        delivered s = queue_m q \<and>
        oks s = replicate (size_q q) True \<and>
        blocked s = 0 \<and>
        queue_m (chan s) = [] \<and>
        ok (pop (chan s) w t) = False \<and>
        blocked_ms (pop (chan s) w t) = 0 \<and>
        run_ops (map Pop ts') s = Inr (s\<lparr>oks := oks s @ replicate (length ts') False\<rparr>)"
    by blast
qed

section \<open>Properties of the two threads\<close>

lemma main_pop_return_flags:
  "running (main_pop_return w s) = running s"
  "running_m (frameQueue (main_pop_return w s)) = running_m (frameQueue s)"
  by (simp_all add: main_pop_return_def pop_locked_cases)

lemma count_frame_flags [simp]:
  "running (count_frame i s) = running s"
  "frameQueue (count_frame i s) = frameQueue s"
  "cap_pc (count_frame i s) = cap_pc s"
  "main_pc (count_frame i s) = main_pc s"
  by (simp_all add: count_frame_def)

lemma captureThread_step_mono:
  assumes "captureThread_step i s = Inr s'"
  shows "(running s' \<longrightarrow> running s) \<and>
         (running_m (frameQueue s') \<longrightarrow> running_m (frameQueue s))"
  using assms
  by (cases "cap_pc s")
     (auto simp: captureThread_step_def stop_def split: if_splits list.splits)

lemma main_step_mono:
  assumes "main_step d s = Inr s'"
  shows "(running s' \<longrightarrow> running s) \<and>
         (running_m (frameQueue s') \<longrightarrow> running_m (frameQueue s))"
  using assms
  by (cases "main_pc s")
     (auto simp: main_step_def stop_def main_pop_return_flags Let_def split: if_splits)

lemma step_mono:
  "step e s = Inr s' \<Longrightarrow>
   (running s' \<longrightarrow> running s) \<and> (running_m (frameQueue s') \<longrightarrow> running_m (frameQueue s))"
  by (cases e) (auto dest: captureThread_step_mono main_step_mono)

lemma exec_mono:
  "exec es s = Inr s' \<Longrightarrow> running s' \<Longrightarrow> running s"
proof (induction es arbitrary: s)
  case Nil
  then show ?case by simp
next
  case (Cons e es)
  then obtain s1 where s1: "step e s = Inr s1" "exec es s1 = Inr s'"
    by (auto split: sum.splits)
  from Cons.IH[OF s1(2) Cons.prems(2)] step_mono[OF s1(1)] show ?case by blast
qed

lemma flag_trace_hd: "flag_trace es s = running s # tl (flag_trace es s)"
  by (cases es) simp_all

lemma flag_trace_stopped:
  "\<not> running s \<Longrightarrow> falls (flag_trace es s) = 0 \<and> rises (flag_trace es s) = 0"
proof (induction es arbitrary: s)
  case Nil
  then show ?case by simp
next
  case (Cons e es)
  show ?case
  proof (cases "step e s")
    case (Inl err)
    then show ?thesis by simp
  next
    case (Inr s1)
    with Cons.prems step_mono[OF Inr] have stopped: "\<not> running s1" by blast
    from Cons.IH[OF stopped] have ih: "falls (flag_trace es s1) = 0" "rises (flag_trace es s1) = 0"
      by simp_all
    obtain r where r: "flag_trace es s1 = running s1 # r"
      using flag_trace_hd by blast
    with Inr Cons.prems stopped ih show ?thesis by simp
  qed
qed

lemma flag_trace_falls:
  "falls (flag_trace es s) \<le> 1 \<and> rises (flag_trace es s) = 0"
proof (induction es arbitrary: s)
  case Nil
  then show ?case by simp
next
  case (Cons e es)
  show ?case
  proof (cases "step e s")
    case (Inl err)
    then show ?thesis by simp
  next
    case (Inr s1)
    obtain r where r: "flag_trace es s1 = running s1 # r"
      using flag_trace_hd by blast
    show ?thesis
    proof (cases "running s1")
      case True
      with step_mono[OF Inr] have "running s" by blast
      with True Inr r Cons.IH[of s1] show ?thesis by simp
    next
      case False
      from flag_trace_stopped[OF False, of es] False Inr r show ?thesis by simp
    qed
  qed
qed

lemma step_fall_cause:
  assumes "step e s = Inr s'" "running s" "\<not> running s'"
  shows "(cap_pc s = Cap_Set_Flag \<and> (\<exists>i. e = Capture i)) \<or>
         (main_pc s = Main_Show \<and> (\<exists>d. e = Display d \<and> exit_key (key d)))"
proof (cases e)
  case (Capture i)
  with assms show ?thesis
    by (cases "cap_pc s")
       (auto simp: captureThread_step_def split: if_splits list.splits)
next
  case (Display d)
  with assms show ?thesis
    by (cases "main_pc s")
       (auto simp: main_step_def main_pop_return_flags Let_def split: if_splits)
qed

lemma main_step_cap_pc: "main_step d s = Inr s' \<Longrightarrow> cap_pc s' = cap_pc s"
  by (cases "main_pc s")
     (auto simp: main_step_def main_pop_return_def Let_def split: if_splits prod.splits)

lemma failure_path_step:
  assumes "step e s = Inr s'"
    and "cap_pc s \<in> {Cap_Set_Flag, Cap_Stop_Queue, Cap_Failed}"
    and "cap_pc s = Cap_Stop_Queue \<longrightarrow> \<not> running s"
    and "cap_pc s = Cap_Failed \<longrightarrow> \<not> running s \<and> \<not> running_m (frameQueue s)"
  shows "cap_pc s' \<in> {Cap_Set_Flag, Cap_Stop_Queue, Cap_Failed} \<and>
         (cap_pc s' = Cap_Stop_Queue \<longrightarrow> \<not> running s') \<and>
         (cap_pc s' = Cap_Failed \<longrightarrow> \<not> running s' \<and> \<not> running_m (frameQueue s'))"
proof (cases e)
  case (Capture i)
  with assms show ?thesis
    by (auto simp: captureThread_step_def stop_def)
next
  case (Display d)
  with assms have m: "main_step d s = Inr s'" by simp
  from main_step_cap_pc[OF m] main_step_mono[OF m] assms(2-4) show ?thesis by auto
qed

lemma failure_path_exec:
  "exec es s = Inr s' \<Longrightarrow>
   cap_pc s \<in> {Cap_Set_Flag, Cap_Stop_Queue, Cap_Failed} \<Longrightarrow>
   (cap_pc s = Cap_Stop_Queue \<longrightarrow> \<not> running s) \<Longrightarrow>
   (cap_pc s = Cap_Failed \<longrightarrow> \<not> running s \<and> \<not> running_m (frameQueue s)) \<Longrightarrow>
   cap_pc s' \<in> {Cap_Set_Flag, Cap_Stop_Queue, Cap_Failed} \<and>
   (cap_pc s' = Cap_Failed \<longrightarrow> \<not> running s' \<and> \<not> running_m (frameQueue s'))"
proof (induction es arbitrary: s)
  case Nil
  then show ?case by simp
next
  case (Cons e es)
  from Cons.prems(1) obtain s1 where s1: "step e s = Inr s1" "exec es s1 = Inr s'"
    by (auto split: sum.splits)
  from failure_path_step[OF s1(1) Cons.prems(2,3,4)]
  show ?case by (intro Cons.IH[OF s1(2)]) simp_all
qed

lemma zero_capacity_run:
  "isOpened i1 \<Longrightarrow> read_ok i3 \<Longrightarrow> \<not> Mat_empty (read_frame i3) \<Longrightarrow>
   exec [Capture i1, Capture i2, Capture i3, Capture i4, Capture i5, Capture i6] (main_init 0)
     = Inl Pop_On_Empty_Queue"
  by (simp add: captureThread_step_def main_init_def FrameQueue_init_def main_holds_mutex_def)

text \<open>
  \<^verbatim>\<open>stop\<close> writes \<^verbatim>\<open>running_\<close> and notifies without taking the mutex. When it runs
  after the consumer has evaluated the predicate and before the consumer blocks, the
  notification finds no waiter: the consumer then blocks on a stopped queue and stays
  blocked until its deadline.
\<close>

lemma stop_before_block:
  assumes "cap_pc s = Cap_Stop_Queue" and "main_pc s = Main_Wait" and "\<not> timed_out d'"
  shows "exec [Capture i, Display d, Display d'] s =
           Inr (s\<lparr>frameQueue := stop (frameQueue s), cap_pc := Cap_Failed,
                  main_pc := Main_Blocked\<rparr>)"
  using assms by (simp add: captureThread_step_def main_step_def notify_def)

section \<open>The claims\<close>

text \<open>
  Claim C1. On an open channel, a sequence of \<^verbatim>\<open>push\<close> and \<^verbatim>\<open>pop\<close> in which no push
  finds the channel full runs without error, and the frames returned by the successful
  pops, followed by the frames still buffered, are the frames buffered at the start
  followed by the frames pushed, in that order. From a new channel the pops therefore
  return the pushed frames in the order of the pushes.
\<close>

theorem fifo_without_overflow:
  "running_m (chan s) \<Longrightarrow> Stop \<notin> set ops \<Longrightarrow> no_overflow ops s \<Longrightarrow>
   \<exists>s'. run_ops ops s = Inr s' \<and>
        delivered s' @ queue_m (chan s') = delivered s @ queue_m (chan s) @ pushed ops"
proof (induction ops arbitrary: s)
  case Nil
  then show ?case by simp
next
  case (Cons x xs)
  from Cons.prems have x: "x \<noteq> Stop"
    and room: "case x of Push f \<Rightarrow> size_q (chan s) < max_size_m (chan s) | _ \<Rightarrow> True"
    by auto
  from exec_op_fifo[OF Cons.prems(1) x room] obtain s1 where
    s1: "exec_op x s = Inr s1" "running_m (chan s1)"
        "delivered s1 @ queue_m (chan s1) = delivered s @ queue_m (chan s) @ pushed [x]"
    by blast
  from Cons.prems s1 have "Stop \<notin> set xs" "no_overflow xs s1" by auto
  from Cons.IH[OF s1(2) this] obtain s' where
    s': "run_ops xs s1 = Inr s'"
        "delivered s' @ queue_m (chan s') = delivered s1 @ queue_m (chan s1) @ pushed xs"
    by blast
  have "delivered s' @ queue_m (chan s') = delivered s @ queue_m (chan s) @ pushed (x # xs)"
    using s'(2) s1(3) by (subst pushed_Cons) (metis append.assoc)
  with s1(1) s'(1) show ?case by simp
qed

theorem fifo_without_overflow_witness:
  "running_m (chan (start (FrameQueue_init 2) (0::nat))) \<and>
   Stop \<notin> set [Push 1, Push 2, Pop 1000, Push 3, Pop 0, Pop (- 5)] \<and>
   no_overflow [Push 1, Push 2, Pop 1000, Push 3, Pop 0, Pop (- 5)]
     (start (FrameQueue_init 2) (0::nat)) \<and>
   (\<exists>s'. run_ops [Push 1, Push 2, Pop 1000, Push 3, Pop 0, Pop (- 5)]
           (start (FrameQueue_init 2) (0::nat)) = Inr s' \<and>
         delivered s' @ queue_m (chan s') = [1, 2, 3])"
proof -
  have h1: "running_m (chan (start (FrameQueue_init 2) (0::nat)))"
    by (simp add: start_def FrameQueue_init_def)
  have h2: "Stop \<notin> set [Push 1, Push 2, Pop 1000, Push 3, Pop 0, Pop (- 5 :: int) :: nat op]"
    by simp
  have h3: "no_overflow [Push 1, Push 2, Pop 1000, Push 3, Pop 0, Pop (- 5)]
     (start (FrameQueue_init 2) (0::nat))"
    by (simp add: start_def FrameQueue_init_def size_q_def push_room pop_cases Let_def)
  from fifo_without_overflow[OF h1 h2 h3] h1 h2 h3 show ?thesis
    by (simp add: start_def FrameQueue_init_def)
qed

text \<open>
  Claim C2. A \<^verbatim>\<open>push\<close> on a full open channel does not always insert its frame. On the
  channel of capacity two that holds the frames 1 and 2, a \<^verbatim>\<open>push\<close> of frame 3 during
  which the store of a \<^verbatim>\<open>stop\<close> lands after the loop has read \<^verbatim>\<open>running_\<close> and before
  \<^verbatim>\<open>if (running_)\<close> reads it removes frame 1 and inserts nothing: frame 2 alone is left,
  on a stopped channel. \<^verbatim>\<open>main\<close> runs into this from its initial state: the capture
  thread is inside \<^verbatim>\<open>push\<close> of its fourth frame, on the full queue, when the display loop
  sees the exit key and calls \<^verbatim>\<open>stop\<close>.
\<close>

theorem stop_during_push_inserts_nothing:
  "push (Some 1) \<lparr>queue_m = [1, 2::nat], max_size_m = 2, running_m = True\<rparr> 3
     = Inr \<lparr>queue_m = [2], max_size_m = 2, running_m = False\<rparr> \<and>
   (\<exists>s0 s1.
      exec [Capture (camera 0), Capture (camera 0), Capture (camera 0), Capture (camera 0),
            Capture (camera 0), Capture (camera 0), Capture (camera 0),
            Display (keyboard 0), Display (keyboard 0),
            Capture (camera 1), Capture (camera 1), Capture (camera 1), Capture (camera 1),
            Capture (camera 1), Capture (camera 1),
            Capture (camera 2), Capture (camera 2), Capture (camera 2), Capture (camera 2),
            Capture (camera 2), Capture (camera 2),
            Capture (camera 3), Capture (camera 3)]
        (main_init 2) = Inr s0 \<and>
      cap_pc s0 = Cap_Push \<and> cap_frame s0 = Mat [3] \<and>
      frameQueue s0 = \<lparr>queue_m = [Mat [1], Mat [2]], max_size_m = 2, running_m = True\<rparr> \<and>
      exec [Capture (camera 3), Capture (camera 3), Capture (camera 3),
            Display (keyboard 113), Display (keyboard 113),
            Capture (camera 3), Capture (camera 3)]
        s0 = Inr s1 \<and>
      cap_pc s1 = Cap_Loop \<and>
      frameQueue s1 = \<lparr>queue_m = [Mat [2]], max_size_m = 2, running_m = False\<rparr>)"
proof
  show "push (Some 1) \<lparr>queue_m = [1, 2::nat], max_size_m = 2, running_m = True\<rparr> 3
     = Inr \<lparr>queue_m = [2], max_size_m = 2, running_m = False\<rparr>"
    by (simp add: push_def drop_oldest.simps read_running_def stop_def)
next
  let ?s0 = "(main_init 2)\<lparr>frameQueue := \<lparr>queue_m = [Mat [1], Mat [2::nat]], max_size_m = 2, running_m = True\<rparr>,
      cap_pc := Cap_Push, cap_frame := Mat [3], cap_frame_count := 3,
      main_pc := Main_Show, main_frame := Mat [0]\<rparr>"
  have a: "exec [Capture (camera 0), Capture (camera 0), Capture (camera 0), Capture (camera 0),
            Capture (camera 0), Capture (camera 0), Capture (camera 0),
            Display (keyboard 0), Display (keyboard 0),
            Capture (camera 1), Capture (camera 1), Capture (camera 1), Capture (camera 1),
            Capture (camera 1), Capture (camera 1),
            Capture (camera 2), Capture (camera 2), Capture (camera 2), Capture (camera 2),
            Capture (camera 2), Capture (camera 2),
            Capture (camera 3), Capture (camera 3)]
        (main_init 2) = Inr ?s0"
    by (simp add: main_init_def FrameQueue_init_def captureThread_step_def main_step_def
        count_frame_def notify_def Mat_empty_def is_running_def wait_pred_def
        main_pop_return_def pop_locked_def cap_holds_mutex_def main_holds_mutex_def)
  let ?s1 = "?s0\<lparr>frameQueue := \<lparr>queue_m = [Mat [2::nat]], max_size_m = 2, running_m = False\<rparr>,
      running := False, cap_pc := Cap_Loop, cap_frame_count := 4,
      main_pc := Main_Join, main_frame_count := 1, shown := [Mat [0]]\<rparr>"
  have b: "exec [Capture (camera 3), Capture (camera 3), Capture (camera 3),
            Display (keyboard 113), Display (keyboard 113),
            Capture (camera 3), Capture (camera 3)]
        ?s0 = Inr ?s1"
    by (simp add: main_init_def captureThread_step_def main_step_def
        count_frame_def notify_def Mat_empty_def stop_def exit_key_def
        cap_holds_mutex_def main_holds_mutex_def Let_def)
  show "\<exists>s0 s1.
      exec [Capture (camera 0), Capture (camera 0), Capture (camera 0), Capture (camera 0),
            Capture (camera 0), Capture (camera 0), Capture (camera 0),
            Display (keyboard 0), Display (keyboard 0),
            Capture (camera 1), Capture (camera 1), Capture (camera 1), Capture (camera 1),
            Capture (camera 1), Capture (camera 1),
            Capture (camera 2), Capture (camera 2), Capture (camera 2), Capture (camera 2),
            Capture (camera 2), Capture (camera 2),
            Capture (camera 3), Capture (camera 3)]
        (main_init 2) = Inr s0 \<and>
      cap_pc s0 = Cap_Push \<and> cap_frame s0 = Mat [3] \<and>
      frameQueue s0 = \<lparr>queue_m = [Mat [1], Mat [2]], max_size_m = 2, running_m = True\<rparr> \<and>
      exec [Capture (camera 3), Capture (camera 3), Capture (camera 3),
            Display (keyboard 113), Display (keyboard 113),
            Capture (camera 3), Capture (camera 3)]
        s0 = Inr s1 \<and>
      cap_pc s1 = Cap_Loop \<and>
      frameQueue s1 = \<lparr>queue_m = [Mat [2]], max_size_m = 2, running_m = False\<rparr>"
    by (intro exI[of _ ?s0] exI[of _ ?s1] conjI a b) simp_all
qed

text \<open>
  Claim C3. For a capacity \<open>N\<close> of at least one, every sequence of operations on a new
  channel runs without error and leaves at most \<open>N\<close> frames buffered; the sequence is
  arbitrary, so the bound holds after each of its prefixes. Every single operation keeps
  the bound and the capacity, and so does a \<^verbatim>\<open>push\<close> during which the store of a
  \<^verbatim>\<open>stop\<close> lands, wherever it lands.
\<close>

theorem size_bounded_by_capacity:
  "1 \<le> N \<Longrightarrow>
   (\<exists>s'. run_ops ops (start (FrameQueue_init N) v) = Inr s' \<and> size_q (chan s') \<le> N) \<and>
   (size_q (chan s) \<le> N \<and> max_size_m (chan s) = N \<longrightarrow>
      (\<exists>s'. exec_op x s = Inr s' \<and> size_q (chan s') \<le> N \<and> max_size_m (chan s') = N)) \<and>
   (size_q q \<le> N \<and> max_size_m q = N \<longrightarrow>
      (\<exists>q'. push racing q f = Inr q' \<and> size_q q' \<le> N \<and> max_size_m q' = N))"
proof (intro conjI)
  assume N: "1 \<le> N"
  let ?s0 = "start (FrameQueue_init N) v"
  have "1 \<le> max_size_m (chan ?s0)" "size_q (chan ?s0) \<le> max_size_m (chan ?s0)"
    using N by (simp_all add: start_def FrameQueue_init_def size_q_def)
  from run_ops_inv[OF this, of ops]
  show "\<exists>s'. run_ops ops ?s0 = Inr s' \<and> size_q (chan s') \<le> N"
    by (auto simp: start_def FrameQueue_init_def)
  show "size_q (chan s) \<le> N \<and> max_size_m (chan s) = N \<longrightarrow>
      (\<exists>s'. exec_op x s = Inr s' \<and> size_q (chan s') \<le> N \<and> max_size_m (chan s') = N)"
    using exec_op_inv[of s x] N by auto
  show "size_q q \<le> N \<and> max_size_m q = N \<longrightarrow>
      (\<exists>q'. push racing q f = Inr q' \<and> size_q q' \<le> N \<and> max_size_m q' = N)"
  proof
    assume a: "size_q q \<le> N \<and> max_size_m q = N"
    with N have "1 \<le> max_size_m q" by simp
    from push_bounded[OF this, of racing f] a
    show "\<exists>q'. push racing q f = Inr q' \<and> size_q q' \<le> N \<and> max_size_m q' = N"
      by (auto simp: size_q_def)
  qed
qed

theorem size_bounded_by_capacity_witness:
  "(1::nat) \<le> 2 \<and>
   (\<exists>s'. run_ops [Push 1, Push 2, Push 3, Pop 0, Stop, Push 4]
           (start (FrameQueue_init 2) (0::nat)) = Inr s' \<and> size_q (chan s') \<le> 2) \<and>
   size_q (chan (start \<lparr>queue_m = [1, 2::nat], max_size_m = 2, running_m = True\<rparr> 0)) \<le> 2 \<and>
   max_size_m (chan (start \<lparr>queue_m = [1, 2::nat], max_size_m = 2, running_m = True\<rparr> 0)) = 2 \<and>
   (\<exists>s'. exec_op (Push 3) (start \<lparr>queue_m = [1, 2::nat], max_size_m = 2, running_m = True\<rparr> 0)
           = Inr s' \<and> size_q (chan s') \<le> 2 \<and> max_size_m (chan s') = 2) \<and>
   size_q \<lparr>queue_m = [1, 2::nat], max_size_m = 2, running_m = True\<rparr> \<le> 2 \<and>
   max_size_m \<lparr>queue_m = [1, 2::nat], max_size_m = 2, running_m = True\<rparr> = 2 \<and>
   (\<exists>q'. push (Some 1) \<lparr>queue_m = [1, 2::nat], max_size_m = 2, running_m = True\<rparr> 3 = Inr q' \<and>
         size_q q' \<le> 2 \<and> max_size_m q' = 2)"
proof -
  have h1: "(1::nat) \<le> 2" by simp
  have h2: "size_q (chan (start \<lparr>queue_m = [1, 2::nat], max_size_m = 2, running_m = True\<rparr> 0)) \<le> 2"
    and h3: "max_size_m (chan (start \<lparr>queue_m = [1, 2::nat], max_size_m = 2, running_m = True\<rparr> 0)) = 2"
    and h4: "size_q \<lparr>queue_m = [1, 2::nat], max_size_m = 2, running_m = True\<rparr> \<le> 2"
    and h5: "max_size_m \<lparr>queue_m = [1, 2::nat], max_size_m = 2, running_m = True\<rparr> = 2"
    by (simp_all add: start_def size_q_def)
  from size_bounded_by_capacity[OF h1, of "[Push 1, Push 2, Push 3, Pop 0, Stop, Push 4]" 0
            "start \<lparr>queue_m = [1, 2::nat], max_size_m = 2, running_m = True\<rparr> 0" "Push 3"
            "\<lparr>queue_m = [1, 2::nat], max_size_m = 2, running_m = True\<rparr>" "Some 1" 3]
    h1 h2 h3 h4 h5
  show ?thesis by blast
qed


text \<open>
  Claim C5. On a channel that has been stopped, \<^verbatim>\<open>push\<close> returns without error and
  leaves the channel as it was: the frame is dropped and the occupancy is unchanged. A
  further store of \<^verbatim>\<open>stop\<close> landing during the call changes nothing.
\<close>

theorem push_after_stop_noop: "\<not> running_m q \<Longrightarrow> push racing q f = Inr q"
  by (rule push_closed)

theorem push_after_stop_noop_witness:
  "\<not> running_m \<lparr>queue_m = [1::nat], max_size_m = 2, running_m = False\<rparr> \<and>
   push None \<lparr>queue_m = [1::nat], max_size_m = 2, running_m = False\<rparr> 2 =
     Inr \<lparr>queue_m = [1], max_size_m = 2, running_m = False\<rparr> \<and>
   push (Some 0) \<lparr>queue_m = [1::nat], max_size_m = 2, running_m = False\<rparr> 2 =
     Inr \<lparr>queue_m = [1], max_size_m = 2, running_m = False\<rparr>"
  using push_after_stop_noop[of "\<lparr>queue_m = [1::nat], max_size_m = 2, running_m = False\<rparr>" None 2]
        push_after_stop_noop[of "\<lparr>queue_m = [1::nat], max_size_m = 2, running_m = False\<rparr>" "Some 0" 2]
  by simp

text \<open>
  Claim C6. When the camera fails to open, the three steps of the capture thread clear
  \<^verbatim>\<open>running\<close>, stop the queue and return, leaving the buffered frames as they were.
  However the display loop is interleaved with them, the capture thread stays on the
  failure path, so it never reaches its read loop, and once it has returned both flags
  are cleared. A display loop that was blocked in \<^verbatim>\<open>pop\<close> on the empty queue is woken
  by the notification: its next step needs no deadline to pass, \<^verbatim>\<open>pop\<close> returns false,
  and the loop is left.
\<close>

theorem capture_open_failure_stops_pipeline:
  assumes "cap_pc s = Cap_Open" and "\<not> isOpened i1"
  shows
    "exec [Capture i1, Capture i2, Capture i3] s =
       Inr (s\<lparr>frameQueue := stop (frameQueue s), running := False,
              cap_pc := Cap_Failed, main_pc := notify (main_pc s)\<rparr>) \<and>
     (\<forall>es s'. exec (Capture i1 # es) s = Inr s' \<longrightarrow>
        cap_pc s' \<in> {Cap_Set_Flag, Cap_Stop_Queue, Cap_Failed} \<and>
        (cap_pc s' = Cap_Failed \<longrightarrow> \<not> running s' \<and> \<not> is_running (frameQueue s'))) \<and>
     (main_pc s = Main_Blocked \<and> queue_m (frameQueue s) = [] \<longrightarrow>
        exec [Capture i1, Capture i2, Capture i3, Display d] s =
          Inr (s\<lparr>frameQueue := stop (frameQueue s), running := False,
                 cap_pc := Cap_Failed, main_pc := Main_Pop_Failed\<rparr>) \<and>
        exec [Capture i1, Capture i2, Capture i3, Display d, Display d'] s =
          Inr (s\<lparr>frameQueue := stop (frameQueue s), running := False,
                 cap_pc := Cap_Failed, main_pc := Main_Stop\<rparr>))"
proof (intro conjI allI impI)
  show "exec [Capture i1, Capture i2, Capture i3] s =
       Inr (s\<lparr>frameQueue := stop (frameQueue s), running := False,
              cap_pc := Cap_Failed, main_pc := notify (main_pc s)\<rparr>)"
    using assms by (simp add: captureThread_step_def)
next
  fix es s'
  assume run: "exec (Capture i1 # es) s = Inr s'"
  let ?s1 = "s\<lparr>cap_pc := Cap_Set_Flag\<rparr>"
  have "exec es ?s1 = Inr s'"
    using run assms by (simp add: captureThread_step_def)
  from failure_path_exec[OF this]
  show "cap_pc s' \<in> {Cap_Set_Flag, Cap_Stop_Queue, Cap_Failed}"
    and "cap_pc s' = Cap_Failed \<Longrightarrow> \<not> running s'"
    and "cap_pc s' = Cap_Failed \<Longrightarrow> \<not> is_running (frameQueue s')"
    by (simp_all add: is_running_def)
next
  assume "main_pc s = Main_Blocked \<and> queue_m (frameQueue s) = []"
  then show "exec [Capture i1, Capture i2, Capture i3, Display d] s =
          Inr (s\<lparr>frameQueue := stop (frameQueue s), running := False,
                 cap_pc := Cap_Failed, main_pc := Main_Pop_Failed\<rparr>)"
    using assms
    by (simp add: captureThread_step_def main_step_def notify_def stop_def wait_pred_def
        main_pop_return_def pop_locked_def cap_holds_mutex_def)
next
  assume "main_pc s = Main_Blocked \<and> queue_m (frameQueue s) = []"
  then show "exec [Capture i1, Capture i2, Capture i3, Display d, Display d'] s =
          Inr (s\<lparr>frameQueue := stop (frameQueue s), running := False,
                 cap_pc := Cap_Failed, main_pc := Main_Stop\<rparr>)"
    using assms
    by (simp add: captureThread_step_def main_step_def notify_def stop_def wait_pred_def
        main_pop_return_def pop_locked_def cap_holds_mutex_def)
qed

theorem capture_open_failure_stops_pipeline_witness:
  "cap_pc ((main_init 2 :: nat pipeline)\<lparr>main_pc := Main_Blocked\<rparr>) = Cap_Open \<and>
   \<not> isOpened \<lparr>isOpened = False, read_ok = False, read_frame = Mat ([] :: nat list), cap_elapsed = 0\<rparr> \<and>
   main_pc ((main_init 2 :: nat pipeline)\<lparr>main_pc := Main_Blocked\<rparr>) = Main_Blocked \<and>
   queue_m (frameQueue ((main_init 2 :: nat pipeline)\<lparr>main_pc := Main_Blocked\<rparr>)) = [] \<and>
   exec [Capture \<lparr>isOpened = False, read_ok = False, read_frame = Mat [], cap_elapsed = 0\<rparr>,
         Capture \<lparr>isOpened = False, read_ok = False, read_frame = Mat [], cap_elapsed = 0\<rparr>,
         Capture \<lparr>isOpened = False, read_ok = False, read_frame = Mat [], cap_elapsed = 0\<rparr>,
         Display \<lparr>timed_out = False, disp_elapsed = 0, key = 0\<rparr>,
         Display \<lparr>timed_out = False, disp_elapsed = 0, key = 0\<rparr>]
     ((main_init 2 :: nat pipeline)\<lparr>main_pc := Main_Blocked\<rparr>) =
     Inr ((main_init 2)\<lparr>frameQueue := stop (FrameQueue_init 2), running := False,
                         cap_pc := Cap_Failed, main_pc := Main_Stop\<rparr>) \<and>
   (\<exists>s'. exec [Capture \<lparr>isOpened = False, read_ok = False, read_frame = Mat [], cap_elapsed = 0\<rparr>,
               Display \<lparr>timed_out = False, disp_elapsed = 0, key = 0\<rparr>,
               Capture \<lparr>isOpened = False, read_ok = False, read_frame = Mat [], cap_elapsed = 0\<rparr>,
               Capture \<lparr>isOpened = False, read_ok = False, read_frame = Mat [], cap_elapsed = 0\<rparr>]
           ((main_init 2 :: nat pipeline)\<lparr>main_pc := Main_Blocked\<rparr>) = Inr s' \<and>
         cap_pc s' = Cap_Failed \<and> \<not> running s' \<and> \<not> is_running (frameQueue s'))"
proof -
  let ?S = "(main_init 2 :: nat pipeline)\<lparr>main_pc := Main_Blocked\<rparr>"
  let ?I = "\<lparr>isOpened = False, read_ok = False, read_frame = Mat ([] :: nat list), cap_elapsed = 0\<rparr>"
  let ?D = "\<lparr>timed_out = False, disp_elapsed = 0, key = 0\<rparr>"
  have a: "cap_pc ?S = Cap_Open" by (simp add: main_init_def)
  have b: "\<not> isOpened ?I" by simp
  have c: "main_pc ?S = Main_Blocked \<and> queue_m (frameQueue ?S) = []"
    by (simp add: main_init_def FrameQueue_init_def)
  have e: "exec (Capture ?I # [Display ?D, Capture ?I, Capture ?I]) ?S =
             Inr (?S\<lparr>frameQueue := stop (frameQueue ?S), running := False,
                      cap_pc := Cap_Failed, main_pc := Main_Notified\<rparr>)"
    by (simp add: main_init_def captureThread_step_def main_step_def notify_def)
  note inst = capture_open_failure_stops_pipeline[OF a b, of ?I ?I ?D ?D]
  from inst c have run: "exec [Capture ?I, Capture ?I, Capture ?I, Display ?D, Display ?D] ?S =
          Inr (?S\<lparr>frameQueue := stop (frameQueue ?S), running := False,
                 cap_pc := Cap_Failed, main_pc := Main_Stop\<rparr>)"
    by blast
  from inst have
    "\<forall>es s'. exec (Capture ?I # es) ?S = Inr s' \<longrightarrow>
        cap_pc s' \<in> {Cap_Set_Flag, Cap_Stop_Queue, Cap_Failed} \<and>
        (cap_pc s' = Cap_Failed \<longrightarrow> \<not> running s' \<and> \<not> is_running (frameQueue s'))"
    by (rule conjunct2[THEN conjunct1])
  from this[rule_format, OF e]
  have "\<not> running (?S\<lparr>frameQueue := stop (frameQueue ?S), running := False,
                      cap_pc := Cap_Failed, main_pc := Main_Notified\<rparr>) \<and>
        \<not> is_running (frameQueue (?S\<lparr>frameQueue := stop (frameQueue ?S), running := False,
                      cap_pc := Cap_Failed, main_pc := Main_Notified\<rparr>))"
    by simp
  with e have ex: "\<exists>s'. exec [Capture ?I, Display ?D, Capture ?I, Capture ?I] ?S = Inr s' \<and>
         cap_pc s' = Cap_Failed \<and> \<not> running s' \<and> \<not> is_running (frameQueue s')"
    by simp
  have "?S\<lparr>frameQueue := stop (frameQueue ?S), running := False,
                 cap_pc := Cap_Failed, main_pc := Main_Stop\<rparr> =
        (main_init 2)\<lparr>frameQueue := stop (FrameQueue_init 2), running := False,
                         cap_pc := Cap_Failed, main_pc := Main_Stop\<rparr>"
    by (simp add: main_init_def)
  with run a b c ex show ?thesis by simp
qed

text \<open>
  Claim C7. \<^verbatim>\<open>running\<close> and the queue's \<^verbatim>\<open>running_\<close> are true when the pipeline starts.
  No step of either thread sets one of them back to true. A step that clears \<^verbatim>\<open>running\<close>
  is the capture thread's store after a failed open or the display loop's store after an
  exit key. Along every execution from the initial state \<^verbatim>\<open>running\<close> goes from true to
  false at most once, and it never goes from false to true.
\<close>

theorem running_flag_monotonic:
  "running (main_init N) \<and> is_running (frameQueue (main_init N)) \<and>
   (step e s = Inr s' \<longrightarrow>
      (running s' \<longrightarrow> running s) \<and>
      (is_running (frameQueue s') \<longrightarrow> is_running (frameQueue s))) \<and>
   (step e s = Inr s' \<and> running s \<and> \<not> running s' \<longrightarrow>
      (cap_pc s = Cap_Set_Flag \<and> (\<exists>i. e = Capture i)) \<or>
      (main_pc s = Main_Show \<and> (\<exists>d. e = Display d \<and> exit_key (key d)))) \<and>
   (exec es s = Inr s'' \<and> running s'' \<longrightarrow> running s) \<and>
   falls (flag_trace es (main_init N)) \<le> 1 \<and>
   rises (flag_trace es s) = 0"
proof (intro conjI impI)
  show "running (main_init N)" by (simp add: main_init_def)
  show "is_running (frameQueue (main_init N))"
    by (simp add: main_init_def is_running_def FrameQueue_init_def)
  show "falls (flag_trace es (main_init N)) \<le> 1" using flag_trace_falls by blast
  show "rises (flag_trace es s) = 0" using flag_trace_falls by blast
next
  assume "step e s = Inr s'" "running s'"
  then show "running s" using step_mono by blast
next
  assume "step e s = Inr s'" "is_running (frameQueue s')"
  then show "is_running (frameQueue s)" using step_mono by (auto simp: is_running_def)
next
  assume "step e s = Inr s' \<and> running s \<and> \<not> running s'"
  then show "(cap_pc s = Cap_Set_Flag \<and> (\<exists>i. e = Capture i)) \<or>
      (main_pc s = Main_Show \<and> (\<exists>d. e = Display d \<and> exit_key (key d)))"
    using step_fall_cause by blast
next
  assume "exec es s = Inr s'' \<and> running s''"
  then show "running s" using exec_mono by blast
qed

theorem running_flag_monotonic_witness:
  "running (main_init 2 :: nat pipeline) \<and>
   is_running (frameQueue (main_init 2 :: nat pipeline)) \<and>
   step (Capture \<lparr>isOpened = False, read_ok = False, read_frame = Mat [], cap_elapsed = 0\<rparr>)
        ((main_init 2 :: nat pipeline)\<lparr>cap_pc := Cap_Set_Flag\<rparr>)
     = Inr ((main_init 2)\<lparr>running := False, cap_pc := Cap_Stop_Queue\<rparr>) \<and>
   running ((main_init 2 :: nat pipeline)\<lparr>cap_pc := Cap_Set_Flag\<rparr>) \<and>
   \<not> running ((main_init 2 :: nat pipeline)\<lparr>running := False, cap_pc := Cap_Stop_Queue\<rparr>) \<and>
   cap_pc ((main_init 2 :: nat pipeline)\<lparr>cap_pc := Cap_Set_Flag\<rparr>) = Cap_Set_Flag \<and>
   exec [Display \<lparr>timed_out = False, disp_elapsed = 0, key = 0\<rparr>] (main_init 2 :: nat pipeline)
     = Inr ((main_init 2)\<lparr>main_pc := Main_Pop\<rparr>) \<and>
   running ((main_init 2 :: nat pipeline)\<lparr>main_pc := Main_Pop\<rparr>) \<and>
   falls (flag_trace
            [Capture \<lparr>isOpened = False, read_ok = False, read_frame = Mat [], cap_elapsed = 0\<rparr>,
             Capture \<lparr>isOpened = False, read_ok = False, read_frame = Mat [], cap_elapsed = 0\<rparr>,
             Capture \<lparr>isOpened = False, read_ok = False, read_frame = Mat [], cap_elapsed = 0\<rparr>]
            (main_init 2 :: nat pipeline)) \<le> 1"
proof -
  let ?I = "\<lparr>isOpened = False, read_ok = False, read_frame = Mat ([] :: nat list), cap_elapsed = 0\<rparr>"
  let ?D = "\<lparr>timed_out = False, disp_elapsed = 0, key = 0\<rparr>"
  let ?S = "(main_init 2 :: nat pipeline)\<lparr>cap_pc := Cap_Set_Flag\<rparr>"
  let ?S' = "(main_init 2 :: nat pipeline)\<lparr>running := False, cap_pc := Cap_Stop_Queue\<rparr>"
  let ?T = "(main_init 2 :: nat pipeline)\<lparr>main_pc := Main_Pop\<rparr>"
  have a: "step (Capture ?I) ?S = Inr ?S'"
    by (simp add: captureThread_step_def)
  have b: "running ?S \<and> \<not> running ?S'"
    by (simp add: main_init_def)
  have c: "exec [Display ?D] (main_init 2 :: nat pipeline) = Inr ?T \<and> running ?T"
    by (simp add: main_step_def main_init_def is_running_def FrameQueue_init_def)
  have d: "cap_pc ?S = Cap_Set_Flag" by simp
  note i1 = running_flag_monotonic[of 2 "Capture ?I" ?S ?S' "[Capture ?I, Capture ?I, Capture ?I]" ?S]
  note i2 = running_flag_monotonic[of 2 "Display ?D" "main_init 2" ?T "[Display ?D]" ?T]
  from i1 have r: "running (main_init 2 :: nat pipeline) \<and>
      is_running (frameQueue (main_init 2 :: nat pipeline))"
    by blast
  from i1 have f: "falls (flag_trace [Capture ?I, Capture ?I, Capture ?I]
      (main_init 2 :: nat pipeline)) \<le> 1"
    by blast
  from i2 c have "running (main_init 2 :: nat pipeline)" by blast
  with r f a b c d show ?thesis by blast
qed

text \<open>
  Claim C8. With a timeout of zero or less, \<^verbatim>\<open>pop\<close> never blocks: it returns the front
  frame and true when the channel holds a frame, and false, with the caller's frame
  untouched, when the channel is empty, open or closed.
\<close>

theorem pop_nonpositive_timeout_polls:
  "timeout_ms \<le> 0 \<Longrightarrow>
   pop q v timeout_ms =
     (case queue_m q of
        [] \<Rightarrow> \<lparr>ok = False, frame_out = v, queue_after = q, blocked_ms = 0\<rparr>
      | x # xs \<Rightarrow> \<lparr>ok = True, frame_out = x, queue_after = q\<lparr>queue_m := xs\<rparr>,
                  blocked_ms = 0\<rparr>)"
  by (simp add: pop_cases split: list.splits)

theorem pop_nonpositive_timeout_polls_witness:
  "(0::int) \<le> 0 \<and> (- 3 :: int) \<le> 0 \<and>
   pop \<lparr>queue_m = [1, 2::nat], max_size_m = 2, running_m = True\<rparr> 0 0 =
     \<lparr>ok = True, frame_out = 1,
      queue_after = \<lparr>queue_m = [2], max_size_m = 2, running_m = True\<rparr>, blocked_ms = 0\<rparr> \<and>
   pop \<lparr>queue_m = [] :: nat list, max_size_m = 2, running_m = True\<rparr> 9 (- 3) =
     \<lparr>ok = False, frame_out = 9,
      queue_after = \<lparr>queue_m = [], max_size_m = 2, running_m = True\<rparr>, blocked_ms = 0\<rparr>"
  using pop_nonpositive_timeout_polls[of 0 "\<lparr>queue_m = [1, 2::nat], max_size_m = 2, running_m = True\<rparr>" 0]
        pop_nonpositive_timeout_polls[of "- 3" "\<lparr>queue_m = [] :: nat list, max_size_m = 2, running_m = True\<rparr>" 9]
  by simp

text \<open>
  Claim C9. A \<^verbatim>\<open>pop\<close> that returns false leaves the channel and the caller's frame as
  they were. A \<^verbatim>\<open>pop\<close> that returns true removes exactly the front frame, which it
  returns, and leaves the rest of the queue, the flag and the capacity as they were. The
  same holds for the locked part of \<^verbatim>\<open>pop\<close> whatever the wait returned.
\<close>

theorem pop_frame_effect:
  "(\<not> ok (pop q v t) \<longrightarrow> queue_after (pop q v t) = q \<and> frame_out (pop q v t) = v) \<and>
   (ok (pop q v t) \<longrightarrow>
      queue_m q = frame_out (pop q v t) # queue_m (queue_after (pop q v t)) \<and>
      running_m (queue_after (pop q v t)) = running_m q \<and>
      max_size_m (queue_after (pop q v t)) = max_size_m q) \<and>
   (case pop_locked w q v of
      (r, v', q') \<Rightarrow>
        (\<not> r \<longrightarrow> q' = q \<and> v' = v) \<and>
        (r \<longrightarrow> queue_m q = v' # queue_m q' \<and> running_m q' = running_m q \<and>
               max_size_m q' = max_size_m q))"
  by (simp add: pop_cases pop_locked_cases split: list.splits)

theorem pop_frame_effect_witness:
  "\<not> ok (pop \<lparr>queue_m = [] :: nat list, max_size_m = 2, running_m = True\<rparr> 9 1000) \<and>
   queue_after (pop \<lparr>queue_m = [] :: nat list, max_size_m = 2, running_m = True\<rparr> 9 1000)
     = \<lparr>queue_m = [], max_size_m = 2, running_m = True\<rparr> \<and>
   ok (pop \<lparr>queue_m = [1, 2::nat], max_size_m = 2, running_m = True\<rparr> 9 1000) \<and>
   [1, 2] = frame_out (pop \<lparr>queue_m = [1, 2::nat], max_size_m = 2, running_m = True\<rparr> 9 1000)
     # queue_m (queue_after (pop \<lparr>queue_m = [1, 2::nat], max_size_m = 2, running_m = True\<rparr> 9 1000)) \<and>
   running_m (queue_after (pop \<lparr>queue_m = [1, 2::nat], max_size_m = 2, running_m = True\<rparr> 9 1000)) \<and>
   max_size_m (queue_after (pop \<lparr>queue_m = [1, 2::nat], max_size_m = 2, running_m = True\<rparr> 9 1000)) = 2 \<and>
   pop_locked False \<lparr>queue_m = [1, 2::nat], max_size_m = 2, running_m = True\<rparr> 9
     = (False, 9, \<lparr>queue_m = [1, 2], max_size_m = 2, running_m = True\<rparr>) \<and>
   pop_locked True \<lparr>queue_m = [1, 2::nat], max_size_m = 2, running_m = True\<rparr> 9
     = (True, 1, \<lparr>queue_m = [2], max_size_m = 2, running_m = True\<rparr>)"
  using pop_frame_effect[of "\<lparr>queue_m = [] :: nat list, max_size_m = 2, running_m = True\<rparr>" 9 1000 False]
        pop_frame_effect[of "\<lparr>queue_m = [1, 2::nat], max_size_m = 2, running_m = True\<rparr>" 9 1000 True]
  by (simp add: pop_def wait_for_def wait_pred_def pop_locked_def)

text \<open>
  Claim C10. With a capacity of at least one, the loop of \<^verbatim>\<open>push\<close> ends after removing
  some \<open>k\<close> frames from the front, \<open>k\<close> being at most the occupancy plus one minus the
  capacity, and \<^verbatim>\<open>push\<close> returns; this holds when no store of a \<^verbatim>\<open>stop\<close> lands during
  the call and wherever one lands. With capacity zero on an open channel the loop calls
  \<^verbatim>\<open>queue_.pop()\<close> on an empty queue; \<^verbatim>\<open>main\<close> started with a queue size of zero
  reaches this at the first frame the capture thread pushes.
\<close>

theorem drop_oldest_terminates:
  "(1 \<le> max_size_m q \<longrightarrow>
      (\<exists>k \<le> size_q q + 1 - max_size_m q.
         drop_oldest None q = Inr (None, q\<lparr>queue_m := drop k (queue_m q)\<rparr>)) \<and>
      (\<exists>q'. push None q f = Inr q') \<and>
      (\<exists>k \<le> size_q q + 1 - max_size_m q. \<exists>racing' q'.
         drop_oldest racing q = Inr (racing', q') \<and> queue_m q' = drop k (queue_m q)) \<and>
      (\<exists>q'. push racing q f = Inr q')) \<and>
   (max_size_m q = 0 \<and> running_m q \<longrightarrow>
      drop_oldest None q = Inl Pop_On_Empty_Queue \<and> push None q f = Inl Pop_On_Empty_Queue) \<and>
   (isOpened i1 \<and> read_ok i3 \<and> \<not> Mat_empty (read_frame i3) \<longrightarrow>
      exec [Capture i1, Capture i2, Capture i3, Capture i4, Capture i5, Capture i6] (main_init 0)
        = Inl Pop_On_Empty_Queue)"
proof (intro conjI impI)
  assume cap: "1 \<le> max_size_m q"
  show "\<exists>k \<le> size_q q + 1 - max_size_m q.
          drop_oldest None q = Inr (None, q\<lparr>queue_m := drop k (queue_m q)\<rparr>)"
  proof (cases "running_m q")
    case True
    with cap show ?thesis
      by (intro exI[of _ "size_q q + 1 - max_size_m q"])
         (simp add: drop_oldest_None_open size_q_def)
  next
    case False
    then show ?thesis
      by (intro exI[of _ 0]) (simp add: drop_oldest_None_closed)
  qed
  show "\<exists>q'. push None q f = Inr q'"
    using push_bounded[OF cap] by blast
  show "\<exists>k \<le> size_q q + 1 - max_size_m q. \<exists>racing' q'.
         drop_oldest racing q = Inr (racing', q') \<and> queue_m q' = drop k (queue_m q)"
    using drop_oldest_result[OF cap, of racing] unfolding size_q_def by blast
  show "\<exists>q'. push racing q f = Inr q'"
    using push_bounded[OF cap] by blast
next
  assume "max_size_m q = 0 \<and> running_m q"
  then show "drop_oldest None q = Inl Pop_On_Empty_Queue"
    by (simp add: drop_oldest_None_zero_capacity)
next
  assume "max_size_m q = 0 \<and> running_m q"
  then show "push None q f = Inl Pop_On_Empty_Queue"
    by (simp add: push_zero_capacity)
next
  assume "isOpened i1 \<and> read_ok i3 \<and> \<not> Mat_empty (read_frame i3)"
  then show "exec [Capture i1, Capture i2, Capture i3, Capture i4, Capture i5, Capture i6]
      (main_init 0) = Inl Pop_On_Empty_Queue"
    using zero_capacity_run by blast
qed

theorem drop_oldest_terminates_witness:
  "(1 \<le> max_size_m \<lparr>queue_m = [1, 2, 3::nat], max_size_m = 2, running_m = True\<rparr> \<and>
    (\<exists>k \<le> size_q \<lparr>queue_m = [1, 2, 3::nat], max_size_m = 2, running_m = True\<rparr> + 1 - 2.
       drop_oldest None \<lparr>queue_m = [1, 2, 3::nat], max_size_m = 2, running_m = True\<rparr>
         = Inr (None, \<lparr>queue_m = drop k [1, 2, 3], max_size_m = 2, running_m = True\<rparr>)) \<and>
    (\<exists>q'. push None \<lparr>queue_m = [1, 2, 3::nat], max_size_m = 2, running_m = True\<rparr> 4 = Inr q') \<and>
    (\<exists>k \<le> size_q \<lparr>queue_m = [1, 2, 3::nat], max_size_m = 2, running_m = True\<rparr> + 1 - 2.
       \<exists>racing' q'.
         drop_oldest (Some 1) \<lparr>queue_m = [1, 2, 3::nat], max_size_m = 2, running_m = True\<rparr>
           = Inr (racing', q') \<and> queue_m q' = drop k [1, 2, 3]) \<and>
    (\<exists>q'. push (Some 1) \<lparr>queue_m = [1, 2, 3::nat], max_size_m = 2, running_m = True\<rparr> 4
           = Inr q')) \<and>
   (max_size_m \<lparr>queue_m = [] :: nat list, max_size_m = 0, running_m = True\<rparr> = 0 \<and>
    running_m \<lparr>queue_m = [] :: nat list, max_size_m = 0, running_m = True\<rparr> \<and>
    drop_oldest None \<lparr>queue_m = [] :: nat list, max_size_m = 0, running_m = True\<rparr>
      = Inl Pop_On_Empty_Queue \<and>
    push None \<lparr>queue_m = [] :: nat list, max_size_m = 0, running_m = True\<rparr> 4
      = Inl Pop_On_Empty_Queue) \<and>
   (isOpened (camera 7) \<and> read_ok (camera 7) \<and> \<not> Mat_empty (read_frame (camera 7)) \<and>
    exec [Capture (camera 7), Capture (camera 7), Capture (camera 7), Capture (camera 7),
          Capture (camera 7), Capture (camera 7)]
       (main_init 0) = Inl Pop_On_Empty_Queue)"
  using drop_oldest_terminates[of "\<lparr>queue_m = [1, 2, 3::nat], max_size_m = 2, running_m = True\<rparr>"
            4 "Some 1" "camera 7" "camera 7" "camera 7" "camera 7" "camera 7" "camera 7"]
        drop_oldest_terminates[of "\<lparr>queue_m = [] :: nat list, max_size_m = 0, running_m = True\<rparr>"
            4 None "camera 7" "camera 7" "camera 7" "camera 7" "camera 7" "camera 7"]
  by (simp add: Mat_empty_def)

end
